theory Spec2Isabelle
  imports Main "HOL-Library.AList" "HOL-Library.Multiset"
begin

section \<open>ScheduledAt expressions (domain/ScheduledAt/DateFunctions.ts)\<close>

text \<open>
  JavaScript strings are modelled as \<^typ>\<open>string\<close>, read as sequences of code units below
  256. A \<open>Date\<close> is its time value in milliseconds, with \<open>None\<close> for the Invalid Date
  (time value NaN). Numbers that hold milliseconds or amounts are mathematical integers:
  the model is exact where the doubles of the source are (below \<open>2^53\<close>, and inside the
  range of \<open>Date\<close>).
\<close>

type_synonym jsdate = "int option"

text \<open>
  What \<open>evaluate\<close> takes from outside the repository: \<open>parse\<close> of date-fns at the format
  \<open>yyyy-MM-dd'T'HH:mm:ss.SSSxxx\<close> with its reference date, the wall clock read by
  \<open>new Date()\<close> for that reference date, and the local calendar of the JavaScript host
  (the getters \<open>getFullYear\<close>, \<open>getMonth\<close>, \<open>getDate\<close>, \<open>getHours\<close>, \<open>getMinutes\<close>,
  \<open>getSeconds\<close>, \<open>getMilliseconds\<close> and the seven-argument \<open>Date\<close> constructor).
\<close>

type_synonym fields = "int \<times> int \<times> int \<times> int \<times> int \<times> int \<times> int"

record host =
  dateFns_parse :: "string \<Rightarrow> int \<Rightarrow> jsdate"
  wall_clock :: int
  local_fields :: "int \<Rightarrow> fields"
  new_Date_local :: "fields \<Rightarrow> jsdate"

datatype eval_error =
    TooManyOperations string
  | CannotParseAmountAndUnit string
  | UnknownUnit string
  | UnknownOperation string

text \<open>The message of the \<open>Error\<close> thrown, as the template strings of the source build it.\<close>

fun message :: "eval_error \<Rightarrow> string" where
  "message (TooManyOperations s) =
     ''Cannot parse '' @ [CHR 0x27] @ s @ [CHR 0x27] @
     '', max. one operation on dates currently supported''"
| "message (CannotParseAmountAndUnit a) =
     ''Cannot parse amountAndUnit '' @ [CHR 0x27] @ a @ [CHR 0x27]"
| "message (UnknownUnit u) = ''Unknown unit '' @ u"
| "message (UnknownOperation operation) = ''Unknown operation '' @ operation"

text \<open>White space of \<open>trim\<close> and of \<open>\s\<close>: tab, LF, VT, FF, CR, space and NBSP.\<close>

definition is_space :: "char \<Rightarrow> bool" where
  "is_space c = (c \<in> set [CHR 0x09, CHR 0x0A, CHR 0x0B, CHR 0x0C, CHR 0x0D, CHR 0x20, CHR 0xA0])"

definition is_digit :: "char \<Rightarrow> bool" where
  "is_digit c = (c \<in> set ''0123456789'')"

text \<open>\<open>s.split(c)\<close> for a one-character separator: never the empty array.\<close>

fun split_on :: "char \<Rightarrow> string \<Rightarrow> string list" where
  "split_on c [] = [[]]"
| "split_on c (x # xs) =
     (if x = c then [] # split_on c xs
      else (case split_on c xs of [] \<Rightarrow> [[x]] | y # ys \<Rightarrow> (x # y) # ys))"

definition trim :: "string \<Rightarrow> string" where
  "trim s = rev (dropWhile is_space (rev (dropWhile is_space s)))"

text \<open>
  \<open>operation.split(/\s+(.*)/s)\<close>, of which the source reads the first two elements.
  The expression matches at the first white space, takes the whole run of white space
  and captures everything after it (the flag \<open>s\<close> lets the dot match line ends), so
  the array is \<open>[before, captured, ""]\<close>; with no white space it is \<open>[operation]\<close> and
  the second element is \<open>undefined\<close> (\<open>None\<close>).
\<close>

definition split_operation :: "string \<Rightarrow> string \<times> string option" where
  "split_operation operation =
     (let rest = dropWhile (\<lambda>c. \<not> is_space c) operation in
      if rest = [] then (operation, None)
      else (takeWhile (\<lambda>c. \<not> is_space c) operation, Some (dropWhile is_space rest)))"

text \<open>The alternatives of the unit group of the regular expression, in its order.\<close>

definition unit_words :: "string list" where
  "unit_words = [''s'', ''m'', ''h'', ''d'', ''second'', ''seconds'', ''months'', ''month'',
     ''months'', ''year'', ''years'']"

text \<open>
  \<open>/^([+-]?\s*\d+)\s*((?:[smhd]|second|...|years))$/.exec(a)\<close>: the two groups of the
  match. Each greedy part can only match its maximal run (what follows cannot start
  with a character of the run), and the end anchor makes the unit the whole remainder.
\<close>

definition regexp_exec :: "string \<Rightarrow> (string \<times> string) option" where
  "regexp_exec a =
     (let sign = (case a of [] \<Rightarrow> [] | c # cs \<Rightarrow> if c = CHR ''+'' \<or> c = CHR ''-'' then [c] else []);
          r0 = drop (length sign) a;
          ws = takeWhile is_space r0;
          r1 = dropWhile is_space r0;
          ds = takeWhile is_digit r1;
          r2 = dropWhile is_digit r1;
          u = dropWhile is_space r2
      in if ds \<noteq> [] \<and> u \<in> set unit_words then Some (sign @ ws @ ds, u) else None)"

definition digit_value :: "char \<Rightarrow> int" where
  "digit_value c = int (of_char c) - 48"

text \<open>\<open>Number(t)\<close> on an optional sign followed by decimal digits.\<close>

definition Number :: "string \<Rightarrow> int" where
  "Number t =
     (case t of
        [] \<Rightarrow> 0
      | c # cs \<Rightarrow>
          if c = CHR ''-'' then - foldl (\<lambda>n d. 10 * n + digit_value d) 0 cs
          else if c = CHR ''+'' then foldl (\<lambda>n d. 10 * n + digit_value d) 0 cs
          else foldl (\<lambda>n d. 10 * n + digit_value d) 0 t)"

text \<open>\<open>new Date(date.getTime() + k)\<close>: the Invalid Date stays invalid.\<close>

definition plus_ms :: "jsdate \<Rightarrow> int \<Rightarrow> jsdate" where
  "plus_ms date k = map_option (\<lambda>t. t + k) date"

definition add_months :: "host \<Rightarrow> jsdate \<Rightarrow> int \<Rightarrow> jsdate" where
  "add_months h date amount =
     (case date of
        None \<Rightarrow> None
      | Some t \<Rightarrow>
          (case local_fields h t of
             (y, mo, d, hh, mi, ss, ms) \<Rightarrow> new_Date_local h (y, mo + amount, d, hh, mi, ss, ms)))"

definition add_years :: "host \<Rightarrow> jsdate \<Rightarrow> int \<Rightarrow> jsdate" where
  "add_years h date amount =
     (case date of
        None \<Rightarrow> None
      | Some t \<Rightarrow>
          (case local_fields h t of
             (y, mo, d, hh, mi, ss, ms) \<Rightarrow> new_Date_local h (y + amount, mo, d, hh, mi, ss, ms)))"

text \<open>
  The \<open>switch (unit)\<close>. The labels \<open>"month" || "months"\<close> and \<open>"year" || "years"\<close> are
  JavaScript expressions whose values are \<open>"month"\<close> and \<open>"year"\<close>.
\<close>

definition apply_unit :: "host \<Rightarrow> jsdate \<Rightarrow> int \<Rightarrow> string \<Rightarrow> eval_error + jsdate" where
  "apply_unit h date amount unit =
     (if unit = ''s'' then Inr (plus_ms date (amount * 1000))
      else if unit = ''m'' then Inr (plus_ms date (amount * 60 * 1000))
      else if unit = ''h'' then Inr (plus_ms date (amount * 60 * 60 * 1000))
      else if unit = ''d'' then Inr (plus_ms date (amount * 24 * 60 * 60 * 1000))
      else if unit = ''month'' then Inr (add_months h date amount)
      else if unit = ''year'' then Inr (add_years h date amount)
      else Inl (UnknownUnit unit))"

text \<open>
  \<open>evaluate(s)({clock})\<close>; \<open>now\<close> is what the injected \<open>clock.now()\<close> returns. A thrown
  \<open>Error\<close> is \<open>Inl\<close>.
\<close>

definition evaluate :: "host \<Rightarrow> int \<Rightarrow> string \<Rightarrow> eval_error + jsdate" where
  "evaluate h now s =
     (let elements = split_on CHR ''|'' s;
          dateString = trim (hd elements);
          date = (if dateString = ''now'' then Some now
                  else dateFns_parse h dateString (wall_clock h))
      in if length elements = 1 then Inr date
         else if length elements > 2 then Inl (TooManyOperations s)
         else
           (let operation = trim (elements ! 1) in
            case split_operation operation of
              (operator, amountAndUnit) \<Rightarrow>
                if operator = ''add'' then
                  (let a = (case amountAndUnit of None \<Rightarrow> ''undefined'' | Some x \<Rightarrow> x) in
                   case regexp_exec a of
                     None \<Rightarrow> Inl (CannotParseAmountAndUnit a)
                   | Some (m1, unit) \<Rightarrow>
                       apply_unit h date (Number (filter (\<lambda>c. \<not> is_space c) m1)) unit)
                else Inl (UnknownOperation operation)))"

section \<open>The Firestore processor (Firebase/Processor/FirestoreProcessor)\<close>

subsection \<open>Documents, the three collections and thrown values\<close>

type_synonym job_id = string

text \<open>A \<open>JobDefinition\<close>: its \<open>id\<close> and \<open>scheduledAt.date.getTime()\<close>.\<close>

record jobdef =
  jd_id :: job_id
  jd_scheduledAt :: int

text \<open>A \<open>QueryDocumentSnapshot\<close> of the collection \<open>queued\<close>: \<open>id\<close> and \<open>data()\<close>.\<close>

record 'd doc =
  doc_id :: job_id
  doc_data :: 'd

text \<open>
  \<open>JobDefinition.firestoreCodec\<close> is not among the sources: it is a parameter, together
  with the reading of the field \<open>scheduledAt\<close> that the query orders by.
\<close>

record 'd codec =
  decode :: "'d \<Rightarrow> jobdef option"
  encode :: "jobdef \<Rightarrow> 'd"
  scheduledAt_field :: "'d \<Rightarrow> int option"

record 'd completion =
  jobDefinition :: 'd
  status :: int
  executionLagMs :: int
  durationMs :: int

text \<open>The collections \<open>queued\<close>, \<open>running\<close> and \<open>complete\<close> under the root document.\<close>

record 'd store =
  queued :: "(job_id \<times> 'd) list"
  running :: "(job_id \<times> 'd) list"
  complete :: "(job_id \<times> 'd completion) list"

text \<open>
  What a promise is rejected with, or a \<open>Left\<close> holds: an \<open>Error\<close> object with its message
  and its \<open>code\<close> property if it has one, the value \<open>undefined\<close>, or the task
  \<open>TE.of(undefined)\<close> that the rejection handler of \<open>markJobAsComplete\<close> returns.
\<close>

datatype code = Status nat | Named string

datatype reason = JsError string "code option" | Undefined | TaskEither_of_undefined

fun isFirebaseError :: "reason \<Rightarrow> bool" where
  "isFirebaseError (JsError m c) = (c \<noteq> None)"
| "isFirebaseError Undefined = False"
| "isFirebaseError TaskEither_of_undefined = False"

fun to_string :: "reason \<Rightarrow> string" where
  "to_string (JsError m c) = ''Error: '' @ m"
| "to_string Undefined = ''undefined''"
| "to_string TaskEither_of_undefined = ''[object Object]''"

subsection \<open>Firestore: transactions and the query\<close>

text \<open>
  A failed precondition of a write aborts the commit with a gRPC status error, which
  carries a numeric \<open>code\<close> (5 for a missing document, 6 for an existing one).
\<close>

definition not_found :: reason where
  "not_found = JsError ''NOT_FOUND'' (Some (Status 5))"

definition already_exists :: reason where
  "already_exists = JsError ''ALREADY_EXISTS'' (Some (Status 6))"

text \<open>
  \<open>runTransaction(body, {maxAttempts: 1})\<close>: one attempt, all of the writes or none.
  \<open>fault\<close> is a failure of the storage itself (connectivity, permissions, ...).
\<close>

definition runTransaction ::
  "reason option \<Rightarrow> ('s \<Rightarrow> reason + 's) \<Rightarrow> 's \<Rightarrow> reason + 's" where
  "runTransaction fault body st = (case fault of Some e \<Rightarrow> Inl e | None \<Rightarrow> body st)"

text \<open>
  The writes of the transaction of \<open>markJobAsRunning\<close>:
  \<open>delete(jobDocument.ref, {exists: true})\<close> and \<open>create(running/<id>, jobDocument.data())\<close>.
\<close>

definition claim_writes :: "'d doc \<Rightarrow> 'd store \<Rightarrow> reason + 'd store" where
  "claim_writes jobDocument st =
     (if map_of (queued st) (doc_id jobDocument) = None then Inl not_found
      else if map_of (running st) (doc_id jobDocument) \<noteq> None then Inl already_exists
      else Inr (st\<lparr>queued := AList.delete (doc_id jobDocument) (queued st),
                   running := AList.update (doc_id jobDocument) (doc_data jobDocument)
                                (running st)\<rparr>))"

text \<open>
  The writes of the transaction of \<open>markJobAsComplete\<close>: \<open>create(complete/<id>, record)\<close>
  and \<open>delete(running/<id>, {exists: true})\<close>.
\<close>

definition complete_writes ::
  "jobdef \<Rightarrow> 'd completion \<Rightarrow> 'd store \<Rightarrow> reason + 'd store" where
  "complete_writes jd r st =
     (if map_of (complete st) (jd_id jd) \<noteq> None then Inl already_exists
      else if map_of (running st) (jd_id jd) = None then Inl not_found
      else Inr (st\<lparr>complete := AList.update (jd_id jd) r (complete st),
                   running := AList.delete (jd_id jd) (running st)\<rparr>))"

text \<open>
  \<open>collection(queued).orderBy("scheduledAt", "asc").limit(5)\<close>: the documents that have
  the field, in ascending order of it, the first five.
\<close>

definition query_queued :: "'d codec \<Rightarrow> 'd store \<Rightarrow> 'd doc list" where
  "query_queued c st =
     map (\<lambda>(k, i, d). \<lparr>doc_id = i, doc_data = d\<rparr>)
       (take 5 (sort_key fst
          (List.map_filter (\<lambda>(i, d). map_option (\<lambda>k. (k, i, d)) (scheduledAt_field c d))
             (queued st))))"

text \<open>
  \<open>_.shuffle\<close> of lodash, on a copy of the array: for each index in turn, the element
  is swapped with the one at a random position between the index and the last.
  \<open>draws\<close> are the random numbers.
\<close>

definition draw :: "nat list \<Rightarrow> nat \<Rightarrow> nat" where
  "draw draws i = (if i < length draws then draws ! i else 0)"

definition shuffle_step :: "nat list \<Rightarrow> nat \<Rightarrow> 'a list \<Rightarrow> 'a list" where
  "shuffle_step draws index array =
     (let rand = index + draw draws index mod (length array - index)
      in array[rand := array ! index, index := array ! rand])"

definition shuffle :: "nat list \<Rightarrow> 'a list \<Rightarrow> 'a list" where
  "shuffle draws array = fold (shuffle_step draws) [0..<length array] array"

subsection \<open>markJobAsRunning and markJobAsComplete\<close>

definition already_taken :: reason where
  "already_taken =
     JsError (''Cannot process job, it'' @ [CHR 0x27] @ ''s already taken by another worker'') None"

text \<open>The result of the task and the store after it.\<close>

definition markJobAsRunning ::
  "reason option \<Rightarrow> 'd doc \<Rightarrow> 'd store \<Rightarrow> (reason + unit) \<times> 'd store" where
  "markJobAsRunning fault jobDocument st =
     (case runTransaction fault (claim_writes jobDocument) st of
        Inr st' \<Rightarrow> (Inr (), st')
      | Inl e \<Rightarrow> (Inl (if isFirebaseError e then already_taken else e), st))"

text \<open>
  \<open>markJobAsComplete\<close>: the record is built from the response, the duration and the start
  date handed over by \<open>processJob\<close>. On a failed transaction the rejection handler of
  \<open>TE.tryCatchK\<close> logs and returns \<open>TE.of(undefined)\<close>, which \<open>tryCatchK\<close> wraps in a
  \<open>Left\<close>. The third component is what was written to the console.
\<close>

definition completion_record ::
  "'d codec \<Rightarrow> jobdef \<Rightarrow> int \<Rightarrow> int \<Rightarrow> int \<Rightarrow> 'd completion" where
  "completion_record c jd response_status duration executionStartDate =
     \<lparr>jobDefinition = encode c jd, status = response_status,
      executionLagMs = executionStartDate - jd_scheduledAt jd,
      durationMs = duration\<rparr>"

definition markJobAsComplete ::
  "'d codec \<Rightarrow> reason option \<Rightarrow> jobdef \<Rightarrow> int \<Rightarrow> int \<Rightarrow> int \<Rightarrow> 'd store \<Rightarrow>
     (reason + unit) \<times> 'd store \<times> string list" where
  "markJobAsComplete c fault jd response_status duration executionStartDate st =
     (case runTransaction fault
             (complete_writes jd (completion_record c jd response_status duration executionStartDate))
             st of
        Inr st' \<Rightarrow> (Inr (), st', [])
      | Inl e \<Rightarrow> (Inl TaskEither_of_undefined, st, [''Error: '' @ to_string e]))"

subsection \<open>The processor and its claim loops\<close>

datatype pstate = Idle | Running | Closed

text \<open>
  Where a chain started by \<open>takeNextJob()()\<close> stands. It is suspended on a promise:
  the wait for a snapshot (\<open>Waiting n\<close>, promise and subscription \<open>n\<close>), the transaction
  of \<open>markJobAsRunning\<close> for \<open>docs[index]\<close>, the call of the callback with the start
  date taken before it, or the transaction of \<open>markJobAsComplete\<close> with the response
  status, the duration and the start date. \<open>Settled e\<close>: the chain has ended with
  \<open>Left e\<close> (it never ends with a \<open>Right\<close>).
\<close>

datatype 'd phase =
    Waiting nat
  | Claiming "'d doc list" nat jobdef
  | Executing jobdef int
  | Completing jobdef int int int
  | Settled reason

text \<open>
  The fields of \<open>FirestoreProcessor\<close> (\<open>unsubscribe\<close> and \<open>reject\<close> hold the number of the
  subscription they cancel and of the promise they reject), what the injected clock and
  Firestore hold at this moment, the open snapshot listeners, the chains started by
  \<open>run\<close>, and the console.
\<close>

record 'd processor =
  state :: pstate
  unsubscribe :: "nat option"
  reject :: "nat option"
  clock_now :: int
  firestore :: "'d store"
  listeners :: "nat list"
  fresh :: nat
  loops :: "'d phase list"
  console :: "string list"

definition new_processor :: "'d store \<Rightarrow> int \<Rightarrow> 'd processor" where
  "new_processor st t =
     \<lparr>state = Idle, unsubscribe = None, reject = None, clock_now = t, firestore = st,
      listeners = [], fresh = 0, loops = [], console = []\<rparr>"

definition not_running :: reason where
  "not_running = JsError ''Processor is not running'' None"

definition could_not_get_next_job :: reason where
  "could_not_get_next_job = JsError ''Could not get next job'' None"

text \<open>\<open>this.unsubscribe && this.unsubscribe()\<close>\<close>

definition call_unsubscribe :: "'d processor \<Rightarrow> 'd processor" where
  "call_unsubscribe p =
     (case unsubscribe p of
        None \<Rightarrow> p
      | Some m \<Rightarrow> p\<lparr>listeners := removeAll m (listeners p)\<rparr>)"

text \<open>
  \<open>waitForNextJob\<close> up to its promise: closed, it is a \<open>Left\<close> at once; otherwise it
  stores \<open>reject\<close>, opens the listener on the query and stores its \<open>unsubscribe\<close>.
\<close>

definition waitForNextJob :: "'d processor \<Rightarrow> 'd phase \<times> 'd processor" where
  "waitForNextJob p =
     (if state p = Closed then (Settled not_running, p)
      else (Waiting (fresh p),
            p\<lparr>reject := Some (fresh p), unsubscribe := Some (fresh p),
              listeners := fresh p # listeners p, fresh := Suc (fresh p)\<rparr>))"

text \<open>
  \<open>takeFirstValidAvailableJob(docs, index)\<close> up to the transaction of
  \<open>markJobAsRunning\<close>: past the end it waits again; a document that does not decode is
  a \<open>Left\<close>, which \<open>orElseW\<close> answers with the next index.
\<close>

function takeFirstValidAvailableJob ::
  "'d codec \<Rightarrow> 'd doc list \<Rightarrow> nat \<Rightarrow> 'd processor \<Rightarrow> 'd phase \<times> 'd processor" where
  "takeFirstValidAvailableJob c docs index p =
     (if length docs \<le> index then waitForNextJob p
      else (case decode c (doc_data (docs ! index)) of
              None \<Rightarrow> takeFirstValidAvailableJob c docs (index + 1) p
            | Some jd \<Rightarrow> (Claiming docs index jd, p)))"
  by pat_completeness auto
termination
  by (relation "measure (\<lambda>(c, docs, index, p). length docs - index)") auto

declare takeFirstValidAvailableJob.simps [simp del]

text \<open>The continuation of the promise of \<open>waitForNextJob\<close> on a snapshot.\<close>

definition after_snapshot ::
  "'d codec \<Rightarrow> nat list \<Rightarrow> 'd doc list \<Rightarrow> 'd processor \<Rightarrow> 'd phase \<times> 'd processor" where
  "after_snapshot c draws docs p =
     (if length docs = 0 then waitForNextJob p
      else takeFirstValidAvailableJob c (shuffle draws docs) 0 p)"

text \<open>\<open>takeNextJob\<close> starts with \<open>waitForNextJob\<close>; \<open>processJob\<close> reads the clock and posts.\<close>

definition takeNextJob :: "'d processor \<Rightarrow> 'd phase \<times> 'd processor" where
  "takeNextJob p = waitForNextJob p"

definition processJob :: "jobdef \<Rightarrow> 'd processor \<Rightarrow> 'd phase \<times> 'd processor" where
  "processJob jd p = (Executing jd (clock_now p), p)"

text \<open>Chain \<open>k\<close> goes on with \<open>f\<close>; the chain that waits on promise \<open>n\<close>, if there is one.\<close>

definition resume ::
  "nat \<Rightarrow> ('d processor \<Rightarrow> 'd phase \<times> 'd processor) \<Rightarrow> 'd processor \<Rightarrow> 'd processor" where
  "resume k f p = (case f p of (ph, p') \<Rightarrow> p'\<lparr>loops := (loops p')[k := ph]\<rparr>)"

fun waiting_loop :: "nat \<Rightarrow> 'd phase list \<Rightarrow> nat option" where
  "waiting_loop n [] = None"
| "waiting_loop n (ph # phs) =
     (if ph = Waiting n then Some 0 else map_option Suc (waiting_loop n phs))"

definition settle_promise ::
  "nat \<Rightarrow> ('d processor \<Rightarrow> 'd phase \<times> 'd processor) \<Rightarrow> 'd processor \<Rightarrow> 'd processor" where
  "settle_promise n f p =
     (case waiting_loop n (loops p) of None \<Rightarrow> p | Some k \<Rightarrow> resume k f p)"

definition run :: "'d processor \<Rightarrow> 'd processor" where
  "run p =
     (case takeNextJob (p\<lparr>state := Running\<rparr>) of
        (ph, p') \<Rightarrow> p'\<lparr>loops := loops p' @ [ph]\<rparr>)"

definition close :: "'d processor \<Rightarrow> 'd processor" where
  "close p =
     (let p1 = call_unsubscribe (p\<lparr>state := Closed\<rparr>) in
      case reject p1 of
        None \<Rightarrow> p1
      | Some n \<Rightarrow> settle_promise n (\<lambda>q. (Settled could_not_get_next_job, q)) p1)"

text \<open>
  The callbacks of \<open>onSnapshot\<close> for listener \<open>n\<close>: a snapshot of the query as the store
  stands, and an error.
\<close>

definition on_snapshot :: "'d codec \<Rightarrow> nat \<Rightarrow> nat list \<Rightarrow> 'd processor \<Rightarrow> 'd processor" where
  "on_snapshot c n draws p =
     (if n \<notin> set (listeners p) then p
      else
        (let docs = query_queued c (firestore p) in
         if length docs \<noteq> 0
         then settle_promise n (after_snapshot c draws docs) (call_unsubscribe p)
         else p))"

definition on_listen_error :: "nat \<Rightarrow> 'd processor \<Rightarrow> 'd processor" where
  "on_listen_error n p =
     (if n \<notin> set (listeners p) then p
      else settle_promise n (\<lambda>q. (Settled could_not_get_next_job, q))
             (p\<lparr>listeners := removeAll n (listeners p)\<rparr>))"

text \<open>The transaction that chain \<open>k\<close> waits for commits, or fails with \<open>fault\<close>.\<close>

definition transaction_settles ::
  "'d codec \<Rightarrow> nat \<Rightarrow> reason option \<Rightarrow> 'd processor \<Rightarrow> 'd processor" where
  "transaction_settles c k fault p =
     (if length (loops p) \<le> k then p
      else
        (case loops p ! k of
           Claiming docs index jd \<Rightarrow>
             (case markJobAsRunning fault (docs ! index) (firestore p) of
                (Inr u, st') \<Rightarrow> resume k (processJob jd) (p\<lparr>firestore := st'\<rparr>)
              | (Inl e, st') \<Rightarrow>
                  resume k (takeFirstValidAvailableJob c docs (index + 1)) (p\<lparr>firestore := st'\<rparr>))
         | Completing jd response_status duration executionStartDate \<Rightarrow>
             (case markJobAsComplete c fault jd response_status duration executionStartDate
                     (firestore p) of
                (Inr u, st', out) \<Rightarrow>
                  resume k takeNextJob (p\<lparr>firestore := st', console := console p @ out\<rparr>)
              | (Inl e, st', out) \<Rightarrow>
                  resume k (\<lambda>q. (Settled e, q))
                    (p\<lparr>firestore := st', console := console p @ out\<rparr>))
         | _ \<Rightarrow> p))"

text \<open>
  \<open>axios.post\<close> of chain \<open>k\<close> resolves with a response or rejects. The duration is read
  from the clock when it resolves.
\<close>

datatype http_result = Response int | Rejected reason

definition http_settles :: "nat \<Rightarrow> http_result \<Rightarrow> 'd processor \<Rightarrow> 'd processor" where
  "http_settles k r p =
     (if length (loops p) \<le> k then p
      else
        (case loops p ! k of
           Executing jd executionStartDate \<Rightarrow>
             (case r of
                Response response_status \<Rightarrow>
                  p\<lparr>loops := (loops p)[k := Completing jd response_status
                                 (clock_now p - executionStartDate) executionStartDate]\<rparr>
              | Rejected e \<Rightarrow> p\<lparr>loops := (loops p)[k := Settled e]\<rparr>)
         | _ \<Rightarrow> p))"

text \<open>
  What can happen to a processor: its owner calls \<open>run\<close> or \<open>close\<close>, Firestore calls a
  listener, a transaction or the callback settles, the clock moves, and other workers
  and the scheduler change the store.
\<close>

datatype 'd event =
    CallRun
  | CallClose
  | SnapshotFires nat "nat list"
  | ListenFails nat
  | TransactionSettles nat "reason option"
  | HttpSettles nat http_result
  | ClockReads int
  | StoreBecomes "'d store"

fun step :: "'d codec \<Rightarrow> 'd processor \<Rightarrow> 'd event \<Rightarrow> 'd processor" where
  "step c p CallRun = run p"
| "step c p CallClose = close p"
| "step c p (SnapshotFires n draws) = on_snapshot c n draws p"
| "step c p (ListenFails n) = on_listen_error n p"
| "step c p (TransactionSettles k fault) = transaction_settles c k fault p"
| "step c p (HttpSettles k r) = http_settles k r p"
| "step c p (ClockReads t) = p\<lparr>clock_now := t\<rparr>"
| "step c p (StoreBecomes st) = p\<lparr>firestore := st\<rparr>"

text \<open>A codec for examples: the data of a document is the job definition itself.\<close>

definition plain_codec :: "jobdef codec" where
  "plain_codec = \<lparr>decode = Some, encode = (\<lambda>jd. jd), scheduledAt_field = (\<lambda>d. Some (jd_scheduledAt d))\<rparr>"

definition job :: "job_id \<Rightarrow> int \<Rightarrow> jobdef" where
  "job i t = \<lparr>jd_id = i, jd_scheduledAt = t\<rparr>"

definition job_doc :: "job_id \<Rightarrow> int \<Rightarrow> jobdef doc" where
  "job_doc i t = \<lparr>doc_id = i, doc_data = job i t\<rparr>"

definition empty_store :: "jobdef store" where
  "empty_store = \<lparr>queued = [], running = [], complete = []\<rparr>"

text \<open>
  Observers of a chain, for the properties of the claim order: whether a document
  decodes, the documents on which chain \<open>k\<close> attempts a claim while its transactions
  fail with the given errors one after the other, and those failures as events.
\<close>

definition decodes :: "'d codec \<Rightarrow> 'd doc \<Rightarrow> bool" where
  "decodes c d = (decode c (doc_data d) \<noteq> None)"

fun claim_attempts :: "'d codec \<Rightarrow> nat \<Rightarrow> 'd processor \<Rightarrow> reason list \<Rightarrow> 'd doc list" where
  "claim_attempts c k p [] = []"
| "claim_attempts c k p (e # es) =
     (if length (loops p) \<le> k then []
      else
        (case loops p ! k of
           Claiming docs index jd \<Rightarrow>
             docs ! index # claim_attempts c k (step c p (TransactionSettles k (Some e))) es
         | _ \<Rightarrow> []))"

definition failures :: "nat \<Rightarrow> reason list \<Rightarrow> 'd event list" where
  "failures k es = map (\<lambda>e. TransactionSettles k (Some e)) es"

text \<open>Examples: stores, and a processor whose first chain has a claim in flight.\<close>

definition two_jobs :: "jobdef store" where
  "two_jobs = \<lparr>queued = [(''A'', job ''A'' 0), (''B'', job ''B'' 1)], running = [], complete = []\<rparr>"

definition taken_A :: "jobdef store" where
  "taken_A = \<lparr>queued = [(''B'', job ''B'' 1)], running = [(''A'', job ''A'' 0)], complete = []\<rparr>"

definition started :: "jobdef processor" where
  "started = step plain_codec (run (new_processor two_jobs 7)) (SnapshotFires 0 [])"

text \<open>
  The lifecycle of section 3 of the specification as a property of the store: no id is
  in two of the collections.
\<close>

definition lifecycle :: "'d store \<Rightarrow> bool" where
  "lifecycle st =
     (fst ` set (queued st) \<inter> fst ` set (running st) = {}
      \<and> fst ` set (queued st) \<inter> fst ` set (complete st) = {}
      \<and> fst ` set (running st) \<inter> fst ` set (complete st) = {})"

text \<open>
  More examples: a codec that refuses the documents scheduled before the epoch, a queue
  with such a document, a queue of six jobs, and a store with a job in each collection.
\<close>

definition picky_codec :: "jobdef codec" where
  "picky_codec =
     \<lparr>decode = (\<lambda>d. if jd_scheduledAt d < 0 then None else Some d), encode = (\<lambda>jd. jd),
      scheduledAt_field = (\<lambda>d. Some (jd_scheduledAt d))\<rparr>"

definition bad_and_B :: "jobdef store" where
  "bad_and_B = \<lparr>queued = [(''B'', job ''B'' 1), (''bad'', job ''bad'' (- 1))], running = [],
     complete = []\<rparr>"

definition six_jobs :: "jobdef store" where
  "six_jobs =
     \<lparr>queued = [(''F'', job ''F'' 6), (''A'', job ''A'' 1), (''E'', job ''E'' 5),
        (''B'', job ''B'' 2), (''D'', job ''D'' 4), (''C'', job ''C'' 3)],
      running = [], complete = []\<rparr>"

definition lifecycle_example :: "jobdef store" where
  "lifecycle_example =
     \<lparr>queued = [(''B'', job ''B'' 1)], running = [(''A'', job ''A'' 0)],
      complete = [(''C'', completion_record plain_codec (job ''C'' 0) 200 42 0)]\<rparr>"

section \<open>Properties\<close>

subsection \<open>ScheduledAt expressions\<close>

lemma split_on_not_Nil: "split_on c s \<noteq> []"
  by (induction s) (auto split: list.splits)

lemmas evaluate_defs =
  evaluate_def trim_def is_space_def is_digit_def split_operation_def regexp_exec_def
  unit_words_def Number_def digit_value_def apply_unit_def plus_ms_def

text \<open>
  C6. Against a clock that returns the instant \<open>now\<close>, \<open>"now | add -1h"\<close> is exactly
  \<open>now\<close> minus 3600000 milliseconds, whatever the host (its wall clock, its time zone
  and date-fns) is: only the injected clock is read.
\<close>

theorem evaluate_now_minus_one_hour:
  "evaluate h now ''now | add -1h'' = Inr (Some (now - 3600000))"
  by (simp add: evaluate_defs)

text \<open>
  C5. \<open>"now | add 3 months"\<close> does not resolve: the regular expression accepts the unit
  \<open>months\<close>, and the \<open>switch\<close> has no label equal to it, so the \<open>default\<close> branch throws
  \<open>Unknown unit months\<close>. The same holds for \<open>years\<close>.
\<close>

theorem evaluate_plural_months_years_throw:
  "evaluate h now ''now | add 3 months'' = Inl (UnknownUnit ''months'')
   \<and> evaluate h now ''now | add 1 years'' = Inl (UnknownUnit ''years'')"
  by (simp add: evaluate_defs)

text \<open>The singular words do reach the calendar arithmetic of the host.\<close>

lemma evaluate_singular_month_year:
  "evaluate h now ''now | add 3 month'' = Inr (add_months h (Some now) 3)"
  "evaluate h now ''now | add 1 year'' = Inr (add_years h (Some now) 1)"
  by (simp_all add: evaluate_defs)

text \<open>
  C7. A malformed timestamp is not rejected: \<open>evaluate\<close> returns what date-fns made of
  it (the Invalid Date), with no error.
\<close>

theorem evaluate_malformed_timestamp_not_rejected:
  "evaluate h now ''tomorrow'' = Inr (dateFns_parse h ''tomorrow'' (wall_clock h))
   \<and> evaluate h now ''tomorrow | add 1h'' =
       Inr (plus_ms (dateFns_parse h ''tomorrow'' (wall_clock h)) 3600000)"
  by (simp add: evaluate_defs)

text \<open>The other malformed inputs of C7 do throw.\<close>

lemma length_split_on: "length (split_on c s) = Suc (count_list s c)"
  by (induction s) (auto split: list.splits simp: split_on_not_Nil)

lemma evaluate_more_than_one_operation:
  "2 \<le> count_list s CHR ''|'' \<Longrightarrow> evaluate h now s = Inl (TooManyOperations s)"
  by (simp add: evaluate_def Let_def length_split_on)

lemma evaluate_unknown_operation:
  assumes "count_list s CHR ''|'' = 1"
    and "fst (split_operation (trim (split_on CHR ''|'' s ! 1))) \<noteq> ''add''"
  shows "evaluate h now s = Inl (UnknownOperation (trim (split_on CHR ''|'' s ! 1)))"
proof -
  obtain operator rest where sp: "split_operation (trim (split_on CHR ''|'' s ! 1)) = (operator, rest)"
    by (cases "split_operation (trim (split_on CHR ''|'' s ! 1))")
  with assms(2) have "operator \<noteq> ''add''" by simp
  with sp assms(1) show ?thesis
    by (simp add: evaluate_def Let_def length_split_on)
qed

lemma apply_unit_Inr:
  "apply_unit h date amount u = Inr r \<Longrightarrow> u \<in> {''s'', ''m'', ''h'', ''d'', ''month'', ''year''}"
  by (simp add: apply_unit_def split: if_splits)

lemma apply_unit_plural:
  "apply_unit h date amount ''months'' = Inl (UnknownUnit ''months'')"
  "apply_unit h date amount ''years'' = Inl (UnknownUnit ''years'')"
  "apply_unit h date amount ''seconds'' = Inl (UnknownUnit ''seconds'')"
  by (simp_all add: apply_unit_def)

lemma evaluate_examples_throw:
  "evaluate h now ''now | add 1h | add 1h'' = Inl (TooManyOperations ''now | add 1h | add 1h'')"
  "evaluate h now ''now | add 3 weeks'' = Inl (CannotParseAmountAndUnit ''3 weeks'')"
  "evaluate h now ''now | add 3 seconds'' = Inl (UnknownUnit ''seconds'')"
  "evaluate h now ''now | sub 1h'' = Inl (UnknownOperation ''sub 1h'')"
  "evaluate h now ''now | add'' = Inl (CannotParseAmountAndUnit ''undefined'')"
  by (simp_all add: evaluate_defs)

subsection \<open>The claim transaction\<close>

text \<open>The transactions keep every id in one collection.\<close>

lemma fst_set_delete: "fst ` set (AList.delete k al) = fst ` set al - {k}"
  by (induction al) auto

lemma lifecycle_queued:
  "lifecycle st \<Longrightarrow> map_of (queued st) i \<noteq> None \<Longrightarrow>
   map_of (running st) i = None \<and> map_of (complete st) i = None"
proof -
  assume l: "lifecycle st" and q: "map_of (queued st) i \<noteq> None"
  from q have "i \<in> fst ` set (queued st)" by (simp add: map_of_eq_None_iff)
  with l have "i \<notin> fst ` set (running st)" and "i \<notin> fst ` set (complete st)"
    unfolding lifecycle_def by blast+
  then show ?thesis by (simp add: map_of_eq_None_iff)
qed

lemma disjoint_claim:
  assumes "Q \<inter> R = {}" and "Q \<inter> C = {}" and "R \<inter> C = {}" and "k \<in> Q"
  shows "(Q - {k}) \<inter> ({k} \<union> R) = {}" and "(Q - {k}) \<inter> C = {}" and "({k} \<union> R) \<inter> C = {}"
  using assms by blast+

lemma disjoint_complete:
  assumes "Q \<inter> R = {}" and "Q \<inter> C = {}" and "R \<inter> C = {}" and "k \<in> R"
  shows "Q \<inter> (R - {k}) = {}" and "Q \<inter> ({k} \<union> C) = {}" and "(R - {k}) \<inter> ({k} \<union> C) = {}"
  using assms by blast+

lemma claim_writes_lifecycle:
  "lifecycle st \<Longrightarrow> claim_writes d st = Inr st' \<Longrightarrow> lifecycle st'"
proof -
  assume l: "lifecycle st" and w: "claim_writes d st = Inr st'"
  from w have st': "st' = st\<lparr>queued := AList.delete (doc_id d) (queued st),
      running := AList.update (doc_id d) (doc_data d) (running st)\<rparr>"
    by (simp add: claim_writes_def split: if_splits)
  have q: "fst ` set (queued st') = fst ` set (queued st) - {doc_id d}"
    by (simp add: st' fst_set_delete)
  have r: "fst ` set (running st') = {doc_id d} \<union> fst ` set (running st)"
    by (simp add: st' dom_update)
  have c: "fst ` set (complete st') = fst ` set (complete st)"
    by (simp add: st')
  from w have k: "doc_id d \<in> fst ` set (queued st)"
    by (simp add: claim_writes_def map_of_eq_None_iff split: if_splits)
  from l have d: "fst ` set (queued st) \<inter> fst ` set (running st) = {}"
    "fst ` set (queued st) \<inter> fst ` set (complete st) = {}"
    "fst ` set (running st) \<inter> fst ` set (complete st) = {}"
    by (simp_all add: lifecycle_def)
  show ?thesis
    unfolding lifecycle_def q r c by (intro conjI disjoint_claim[OF d k])
qed

lemma complete_writes_lifecycle:
  "lifecycle st \<Longrightarrow> complete_writes jd r st = Inr st' \<Longrightarrow> lifecycle st'"
proof -
  assume l: "lifecycle st" and w: "complete_writes jd r st = Inr st'"
  from w have st': "st' = st\<lparr>complete := AList.update (jd_id jd) r (complete st),
      running := AList.delete (jd_id jd) (running st)\<rparr>"
    by (simp add: complete_writes_def split: if_splits)
  have q: "fst ` set (queued st') = fst ` set (queued st)"
    by (simp add: st')
  have rn: "fst ` set (running st') = fst ` set (running st) - {jd_id jd}"
    by (simp add: st' fst_set_delete)
  have c: "fst ` set (complete st') = {jd_id jd} \<union> fst ` set (complete st)"
    by (simp add: st' dom_update)
  from w have k: "jd_id jd \<in> fst ` set (running st)"
    by (simp add: complete_writes_def map_of_eq_None_iff split: if_splits)
  from l have d: "fst ` set (queued st) \<inter> fst ` set (running st) = {}"
    "fst ` set (queued st) \<inter> fst ` set (complete st) = {}"
    "fst ` set (running st) \<inter> fst ` set (complete st) = {}"
    by (simp_all add: lifecycle_def)
  show ?thesis
    unfolding lifecycle_def q rn c by (intro conjI disjoint_complete[OF d k])
qed

lemma markJobAsRunning_refused:
  "fault = None \<Longrightarrow>
   map_of (queued st) (doc_id d) = None \<or> map_of (running st) (doc_id d) \<noteq> None \<Longrightarrow>
   markJobAsRunning fault d st = (Inl already_taken, st)"
  by (auto simp: markJobAsRunning_def runTransaction_def claim_writes_def not_found_def
      already_exists_def)

lemma markJobAsRunning_storage_fault:
  "markJobAsRunning (Some e) d st = (Inl (if isFirebaseError e then already_taken else e), st)"
  by (simp add: markJobAsRunning_def runTransaction_def)

lemma markJobAsRunning_commits:
  "fault = None \<Longrightarrow> map_of (queued st) (doc_id d) \<noteq> None \<Longrightarrow>
   map_of (running st) (doc_id d) = None \<Longrightarrow>
   markJobAsRunning fault d st =
     (Inr (), st\<lparr>queued := AList.delete (doc_id d) (queued st),
                 running := AList.update (doc_id d) (doc_data d) (running st)\<rparr>)
   \<and> claim_writes d st =
       Inr (st\<lparr>queued := AList.delete (doc_id d) (queued st),
                running := AList.update (doc_id d) (doc_data d) (running st)\<rparr>)"
  by (simp add: markJobAsRunning_def runTransaction_def claim_writes_def)

text \<open>
  C1. On a store that respects the lifecycle, \<open>markJobAsRunning\<close> is one transaction,
  all or nothing: for a job that is absent from the queue, already running or already
  complete, and whenever the storage fails, it fails and the store is as it was (the
  assertion on the queued document fails the writes with \<open>NOT_FOUND\<close>); for a queued
  job it commits: the document leaves \<open>queued\<close> and is the record in \<open>running\<close>,
  \<open>complete\<close> is as it was, and the store still respects the lifecycle.
\<close>

theorem markJobAsRunning_atomic:
  assumes "lifecycle st"
  shows "(map_of (queued st) (doc_id d) = None \<or> map_of (running st) (doc_id d) \<noteq> None
            \<or> map_of (complete st) (doc_id d) \<noteq> None \<or> fault \<noteq> None \<longrightarrow>
          (\<exists>e. markJobAsRunning fault d st = (Inl e, st)))
    \<and> (map_of (queued st) (doc_id d) = None \<longrightarrow> claim_writes d st = Inl not_found)
    \<and> (fault = None \<and> map_of (queued st) (doc_id d) \<noteq> None \<longrightarrow>
          (\<exists>st'. markJobAsRunning fault d st = (Inr (), st')
             \<and> map_of (queued st') = (map_of (queued st))(doc_id d := None)
             \<and> map_of (running st') = (map_of (running st))(doc_id d \<mapsto> doc_data d)
             \<and> complete st' = complete st \<and> lifecycle st'))"
proof -
  have f: "\<exists>e. markJobAsRunning fault d st = (Inl e, st)"
    if h: "map_of (queued st) (doc_id d) = None \<or> map_of (running st) (doc_id d) \<noteq> None
          \<or> map_of (complete st) (doc_id d) \<noteq> None \<or> fault \<noteq> None"
  proof (cases fault)
    case (Some e)
    then show ?thesis by (simp add: markJobAsRunning_storage_fault)
  next
    case None
    have "map_of (queued st) (doc_id d) = None \<or> map_of (running st) (doc_id d) \<noteq> None"
    proof (cases "map_of (queued st) (doc_id d) = None")
      case True
      then show ?thesis by simp
    next
      case False
      with lifecycle_queued[OF assms, of "doc_id d"] h None show ?thesis by simp
    qed
    with None show ?thesis by (simp add: markJobAsRunning_refused)
  qed
  have n: "claim_writes d st = Inl not_found" if "map_of (queued st) (doc_id d) = None"
    using that by (simp add: claim_writes_def)
  have s: "\<exists>st'. markJobAsRunning fault d st = (Inr (), st')
             \<and> map_of (queued st') = (map_of (queued st))(doc_id d := None)
             \<and> map_of (running st') = (map_of (running st))(doc_id d \<mapsto> doc_data d)
             \<and> complete st' = complete st \<and> lifecycle st'"
    if "fault = None" "map_of (queued st) (doc_id d) \<noteq> None"
  proof -
    let ?st' = "st\<lparr>queued := AList.delete (doc_id d) (queued st),
                 running := AList.update (doc_id d) (doc_data d) (running st)\<rparr>"
    from lifecycle_queued[OF assms that(2)] have r: "map_of (running st) (doc_id d) = None"
      by simp
    from markJobAsRunning_commits[OF that r]
    have m: "markJobAsRunning fault d st = (Inr (), ?st')" and w: "claim_writes d st = Inr ?st'"
      by simp_all
    from assms w have l: "lifecycle ?st'" by (rule claim_writes_lifecycle)
    have q: "map_of (queued ?st') = (map_of (queued st))(doc_id d := None)"
      by (simp add: delete_conv')
    have u: "map_of (running ?st') = (map_of (running st))(doc_id d \<mapsto> doc_data d)"
      by (simp add: update_conv')
    have c: "complete ?st' = complete st" by simp
    from m q u c l show ?thesis by (intro exI[of _ ?st'] conjI)
  qed
  from f n s show ?thesis by (intro conjI impI) simp_all
qed

theorem markJobAsRunning_atomic_witness:
  "lifecycle lifecycle_example
   \<and> (\<exists>e. markJobAsRunning None (job_doc ''Z'' 0) lifecycle_example = (Inl e, lifecycle_example))
   \<and> (\<exists>e. markJobAsRunning None (job_doc ''A'' 0) lifecycle_example = (Inl e, lifecycle_example))
   \<and> (\<exists>e. markJobAsRunning None (job_doc ''C'' 0) lifecycle_example = (Inl e, lifecycle_example))
   \<and> (\<exists>e. markJobAsRunning (Some Undefined) (job_doc ''B'' 1) lifecycle_example =
          (Inl e, lifecycle_example))
   \<and> (\<exists>st'. markJobAsRunning None (job_doc ''B'' 1) lifecycle_example = (Inr (), st')
          \<and> map_of (queued st') ''B'' = None
          \<and> map_of (running st') ''B'' = Some (job ''B'' 1)
          \<and> lifecycle st')"
proof -
  have l: "lifecycle lifecycle_example"
    by (simp add: lifecycle_def lifecycle_example_def)
  have z: "map_of (queued lifecycle_example) (doc_id (job_doc ''Z'' 0)) = None"
    and a: "map_of (running lifecycle_example) (doc_id (job_doc ''A'' 0)) \<noteq> None"
    and c: "map_of (complete lifecycle_example) (doc_id (job_doc ''C'' 0)) \<noteq> None"
    and b: "map_of (queued lifecycle_example) (doc_id (job_doc ''B'' 1)) \<noteq> None"
    by (simp_all add: lifecycle_example_def job_doc_def)
  note t = markJobAsRunning_atomic[OF l]
  from t[of "job_doc ''Z'' 0" None] z
  have 1: "\<exists>e. markJobAsRunning None (job_doc ''Z'' 0) lifecycle_example = (Inl e, lifecycle_example)"
    by simp
  from t[of "job_doc ''A'' 0" None] a
  have 2: "\<exists>e. markJobAsRunning None (job_doc ''A'' 0) lifecycle_example = (Inl e, lifecycle_example)"
    by simp
  from t[of "job_doc ''C'' 0" None] c
  have 3: "\<exists>e. markJobAsRunning None (job_doc ''C'' 0) lifecycle_example = (Inl e, lifecycle_example)"
    by simp
  from t[of "job_doc ''B'' 1" "Some Undefined"]
  have 4: "\<exists>e. markJobAsRunning (Some Undefined) (job_doc ''B'' 1) lifecycle_example =
      (Inl e, lifecycle_example)"
    by simp
  from t[of "job_doc ''B'' 1" None] b
  have "\<exists>st'. markJobAsRunning None (job_doc ''B'' 1) lifecycle_example = (Inr (), st')
      \<and> map_of (queued st') = (map_of (queued lifecycle_example))(doc_id (job_doc ''B'' 1) := None)
      \<and> map_of (running st') =
        (map_of (running lifecycle_example))(doc_id (job_doc ''B'' 1) \<mapsto> doc_data (job_doc ''B'' 1))
      \<and> complete st' = complete lifecycle_example \<and> lifecycle st'"
    by simp
  then obtain st' where m: "markJobAsRunning None (job_doc ''B'' 1) lifecycle_example = (Inr (), st')"
    and q: "map_of (queued st') = (map_of (queued lifecycle_example))(doc_id (job_doc ''B'' 1) := None)"
    and r: "map_of (running st') =
      (map_of (running lifecycle_example))(doc_id (job_doc ''B'' 1) \<mapsto> doc_data (job_doc ''B'' 1))"
    and l': "lifecycle st'"
    by (elim exE conjE)
  from q have q': "map_of (queued st') ''B'' = None" by (simp add: job_doc_def)
  from r have r': "map_of (running st') ''B'' = Some (job ''B'' 1)" by (simp add: job_doc_def)
  from m q' r' l' have 5: "\<exists>st'. markJobAsRunning None (job_doc ''B'' 1) lifecycle_example = (Inr (), st')
          \<and> map_of (queued st') ''B'' = None
          \<and> map_of (running st') ''B'' = Some (job ''B'' 1)
          \<and> lifecycle st'"
    by (intro exI[of _ st'] conjI)
  from l 1 2 3 4 5 show ?thesis by (intro conjI)
qed

text \<open>
  C10. Whatever the transaction of \<open>markJobAsRunning\<close> fails with, the result is the
  error \<open>already taken by another worker\<close> when the value has a \<open>code\<close> property, and the
  value itself when it has none; the failed preconditions of Firestore have one, and
  so has any other status error of the storage.
\<close>

theorem markJobAsRunning_classifies_by_code:
  "fst (markJobAsRunning (Some e) d st) = Inl (if isFirebaseError e then already_taken else e)
   \<and> fst (markJobAsRunning (Some (JsError m (Some cd))) d st) = Inl already_taken
   \<and> fst (markJobAsRunning (Some (JsError m None)) d st) = Inl (JsError m None)
   \<and> fst (markJobAsRunning (Some Undefined) d st) = Inl Undefined
   \<and> isFirebaseError not_found \<and> isFirebaseError already_exists"
  by (simp add: markJobAsRunning_def runTransaction_def not_found_def already_exists_def)

subsection \<open>The state of the processor\<close>

lemma state_waitForNextJob [simp]: "state (snd (waitForNextJob p)) = state p"
  by (simp add: waitForNextJob_def)

lemma loops_waitForNextJob [simp]: "loops (snd (waitForNextJob p)) = loops p"
  by (simp add: waitForNextJob_def)

lemma state_takeFirst [simp]: "state (snd (takeFirstValidAvailableJob c docs i p)) = state p"
  by (induction c docs i p rule: takeFirstValidAvailableJob.induct)
     (simp add: takeFirstValidAvailableJob.simps split: option.splits)

lemma loops_takeFirst [simp]: "loops (snd (takeFirstValidAvailableJob c docs i p)) = loops p"
  by (induction c docs i p rule: takeFirstValidAvailableJob.induct)
     (simp add: takeFirstValidAvailableJob.simps split: option.splits)

lemma state_resume: "state (resume k f p) = state (snd (f p))"
  by (simp add: resume_def split: prod.splits)

lemma loops_resume:
  "loops (snd (f p)) = loops p \<Longrightarrow> k < length (loops p) \<Longrightarrow> loops (resume k f p) ! k = fst (f p)"
  by (cases "f p") (simp add: resume_def)

lemma state_settle_promise:
  "(\<And>q. state (snd (f q)) = state q) \<Longrightarrow> state (settle_promise n f p) = state p"
  by (simp add: settle_promise_def state_resume split: option.splits)

lemma state_call_unsubscribe [simp]: "state (call_unsubscribe p) = state p"
  by (simp add: call_unsubscribe_def split: option.splits)

lemma state_after_snapshot [simp]: "state (snd (after_snapshot c draws docs p)) = state p"
  by (simp add: after_snapshot_def)

lemma state_close [simp]: "state (close p) = Closed"
  by (simp add: close_def Let_def state_settle_promise split: option.splits)

lemma state_run [simp]: "state (run p) = Running"
  by (simp add: run_def takeNextJob_def waitForNextJob_def split: prod.splits)

lemma state_on_snapshot [simp]: "state (on_snapshot c n draws p) = state p"
  by (simp add: on_snapshot_def Let_def state_settle_promise)

lemma state_on_listen_error [simp]: "state (on_listen_error n p) = state p"
  by (simp add: on_listen_error_def state_settle_promise)

lemma state_transaction_settles [simp]: "state (transaction_settles c k fault p) = state p"
  by (auto simp: transaction_settles_def state_resume takeNextJob_def processJob_def
      split: phase.splits sum.splits prod.splits)

lemma state_http_settles [simp]: "state (http_settles k r p) = state p"
  by (simp add: http_settles_def split: phase.splits http_result.splits)

lemma state_step:
  "ev \<noteq> CallRun \<Longrightarrow> state (step c p ev) = (if ev = CallClose then Closed else state p)"
  by (cases ev) simp_all

lemma waiting_loop_Some:
  "waiting_loop n phs = Some k \<Longrightarrow> k < length phs \<and> phs ! k = Waiting n"
  by (induction phs arbitrary: k) (auto split: if_splits)

text \<open>
  C3, as the code has it. \<open>close\<close> sets the state to closed, cancels the subscription
  held in \<open>unsubscribe\<close> and rejects the promise held in \<open>reject\<close>: the chain that waits
  on it ends with \<open>Could not get next job\<close>. A closed processor fails every new wait
  with \<open>Processor is not running\<close>, and nothing but \<open>run\<close> changes its state; \<open>run\<close>
  has no guard: from any state it sets the state to running and starts a new chain,
  which waits on a new listener.
\<close>

theorem close_and_run_states:
  "state (close p) = Closed
   \<and> listeners (close p) =
       (case unsubscribe p of None \<Rightarrow> listeners p | Some m \<Rightarrow> removeAll m (listeners p))
   \<and> (\<forall>n k. reject p = Some n \<and> waiting_loop n (loops p) = Some k \<longrightarrow>
         loops (close p) ! k = Settled could_not_get_next_job)
   \<and> (state p = Closed \<longrightarrow> waitForNextJob p = (Settled not_running, p))
   \<and> (\<forall>ev. state p = Closed \<and> ev \<noteq> CallRun \<longrightarrow> state (step c p ev) = Closed)
   \<and> state (step c p CallRun) = Running
   \<and> step c p CallRun =
       p\<lparr>state := Running, reject := Some (fresh p), unsubscribe := Some (fresh p),
         listeners := fresh p # listeners p, fresh := Suc (fresh p),
         loops := loops p @ [Waiting (fresh p)]\<rparr>"
proof -
  have a: "listeners (close p) =
       (case unsubscribe p of None \<Rightarrow> listeners p | Some m \<Rightarrow> removeAll m (listeners p))"
    by (simp add: close_def Let_def call_unsubscribe_def settle_promise_def resume_def
        split: option.splits)
  have b: "loops (close p) ! k = Settled could_not_get_next_job"
    if "reject p = Some n" "waiting_loop n (loops p) = Some k" for n k
    using that waiting_loop_Some [OF that(2)]
    by (simp add: close_def Let_def call_unsubscribe_def settle_promise_def resume_def
        split: option.splits)
  have d: "state (step c p ev) = Closed" if "state p = Closed" "ev \<noteq> CallRun" for ev
    using that by (simp add: state_step)
  have r: "run p =
       p\<lparr>state := Running, reject := Some (fresh p), unsubscribe := Some (fresh p),
         listeners := fresh p # listeners p, fresh := Suc (fresh p),
         loops := loops p @ [Waiting (fresh p)]\<rparr>"
    by (simp add: run_def takeNextJob_def waitForNextJob_def)
  show ?thesis using a b d r by (simp add: waitForNextJob_def)
qed

theorem close_and_run_states_witness:
  "loops (close (run (new_processor empty_store 0))) ! 0 = Settled could_not_get_next_job
   \<and> listeners (close (run (new_processor empty_store 0))) = []
   \<and> waitForNextJob (close (run (new_processor empty_store 0))) =
       (Settled not_running, close (run (new_processor empty_store 0)))
   \<and> state (step plain_codec (close (run (new_processor empty_store 0))) (ClockReads 5)) = Closed
   \<and> step plain_codec (close (run (new_processor empty_store 0))) CallRun =
       \<lparr>state = Running, unsubscribe = Some 1, reject = Some 1, clock_now = 0,
        firestore = empty_store, listeners = [1], fresh = 2,
        loops = [Settled could_not_get_next_job, Waiting 1], console = []\<rparr>"
proof -
  let ?r = "run (new_processor empty_store 0)"
  have r: "?r =
    \<lparr>state = Running, unsubscribe = Some 0, reject = Some 0, clock_now = 0,
     firestore = empty_store, listeners = [0], fresh = Suc 0, loops = [Waiting 0],
     console = []\<rparr>"
    by (simp add: run_def takeNextJob_def waitForNextJob_def new_processor_def)
  have cl: "close ?r =
    \<lparr>state = Closed, unsubscribe = Some 0, reject = Some 0, clock_now = 0,
     firestore = empty_store, listeners = [], fresh = Suc 0,
     loops = [Settled could_not_get_next_job], console = []\<rparr>"
    by (simp add: r close_def call_unsubscribe_def settle_promise_def resume_def)
  have "reject ?r = Some 0 \<and> waiting_loop 0 (loops ?r) = Some 0"
    by (simp add: r)
  moreover have "state (close ?r) = Closed \<and> ClockReads 5 \<noteq> (CallRun :: jobdef event)"
    by simp
  ultimately show ?thesis
    using close_and_run_states [of ?r plain_codec] close_and_run_states [of "close ?r" plain_codec]
    by (simp add: cl del: step.simps)
qed

text \<open>C3 as stated fails: \<open>run\<close> on a closed processor makes it running again.\<close>

theorem run_after_close_is_running:
  "state (close (run (new_processor empty_store 0))) = Closed
   \<and> state (run (close (run (new_processor empty_store 0)))) = Running"
  by simp

subsection \<open>The query and the shuffle\<close>

lemma keyed_member:
  "(k, i, d) \<in> set (List.map_filter (\<lambda>(i, d). map_option (\<lambda>k. (k, i, d)) (f d)) xs)
   \<Longrightarrow> f d = Some k \<and> (i, d) \<in> set xs"
  by (auto simp: List.map_filter_def split: option.splits)

lemma query_queued_batch:
  "length (query_queued c st) \<le> 5
   \<and> sorted (map (\<lambda>d. the (scheduledAt_field c (doc_data d))) (query_queued c st))
   \<and> (\<forall>d \<in> set (query_queued c st). (doc_id d, doc_data d) \<in> set (queued st)
         \<and> scheduledAt_field c (doc_data d) \<noteq> None)"
proof -
  define ks where "ks = List.map_filter
     (\<lambda>(i, d). map_option (\<lambda>k. (k, i, d)) (scheduledAt_field c d)) (queued st)"
  define ys where "ys = take 5 (sort_key fst ks)"
  have q: "query_queued c st = map (\<lambda>(k, i, d). \<lparr>doc_id = i, doc_data = d\<rparr>) ys"
    by (simp add: query_queued_def ys_def ks_def)
  have sub: "set ys \<subseteq> set ks"
    using set_take_subset[of 5 "sort_key fst ks"] by (simp add: ys_def)
  have mem: "scheduledAt_field c d = Some k \<and> (i, d) \<in> set (queued st)"
    if "(k, i, d) \<in> set ys" for k i d
    using that sub keyed_member[of k i d "scheduledAt_field c" "queued st"]
    by (auto simp: ks_def)
  have "sorted (map fst (sort_key fst ks))" by simp
  then have "sorted (take 5 (map fst (sort_key fst ks)))" by (rule sorted_wrt_take)
  then have s: "sorted (map fst ys)" by (simp add: ys_def take_map)
  have "map (\<lambda>d. the (scheduledAt_field c (doc_data d))) (query_queued c st) = map fst ys"
    using mem by (auto simp: q)
  with s have "sorted (map (\<lambda>d. the (scheduledAt_field c (doc_data d))) (query_queued c st))"
    by simp
  moreover have "length (query_queued c st) \<le> 5" by (simp add: q ys_def)
  moreover have "\<forall>d \<in> set (query_queued c st). (doc_id d, doc_data d) \<in> set (queued st)
         \<and> scheduledAt_field c (doc_data d) \<noteq> None"
    using mem by (auto simp: q)
  ultimately show ?thesis by simp
qed

lemma length_shuffle_step [simp]: "length (shuffle_step draws i xs) = length xs"
  by (simp add: shuffle_step_def Let_def)

lemma mset_shuffle_step:
  "i < length xs \<Longrightarrow> mset (shuffle_step draws i xs) = mset xs"
proof -
  assume i: "i < length xs"
  then have "draw draws i mod (length xs - i) < length xs - i"
    by simp
  then have "i + draw draws i mod (length xs - i) < length xs"
    by linarith
  with i show ?thesis
    by (simp add: shuffle_step_def Let_def mset_swap)
qed

lemma mset_fold_shuffle_step:
  "\<forall>i \<in> set is. i < length xs \<Longrightarrow> mset (fold (shuffle_step draws) is xs) = mset xs"
  by (induction "is" arbitrary: xs) (simp_all add: mset_shuffle_step)

lemma mset_shuffle: "mset (shuffle draws xs) = mset xs"
  by (simp add: shuffle_def mset_fold_shuffle_step)

subsection \<open>Runs of failing claims\<close>

lemma markJobAsRunning_fault [simp]:
  "markJobAsRunning (Some e) d st = (Inl (if isFirebaseError e then already_taken else e), st)"
  by (simp add: markJobAsRunning_def runTransaction_def)

lemma step_failure:
  "k < length (loops q) \<Longrightarrow> loops q ! k = Claiming docs i jd \<Longrightarrow>
   step c q (TransactionSettles k (Some e)) = resume k (takeFirstValidAvailableJob c docs (i + 1)) q"
  by (simp add: transaction_settles_def)

lemma resume_Claiming:
  "i < length docs \<Longrightarrow> decode c (doc_data (docs ! i)) = Some jd \<Longrightarrow>
   resume k (takeFirstValidAvailableJob c docs i) q = q\<lparr>loops := (loops q)[k := Claiming docs i jd]\<rparr>"
  by (simp add: resume_def takeFirstValidAvailableJob.simps)

lemma resume_skip:
  "i < length docs \<Longrightarrow> decode c (doc_data (docs ! i)) = None \<Longrightarrow>
   resume k (takeFirstValidAvailableJob c docs i) q =
   resume k (takeFirstValidAvailableJob c docs (i + 1)) q"
  by (simp add: resume_def takeFirstValidAvailableJob.simps)

lemma resume_exhausted:
  "length docs \<le> i \<Longrightarrow>
   resume k (takeFirstValidAvailableJob c docs i) q = resume k waitForNextJob q"
  by (simp add: resume_def takeFirstValidAvailableJob.simps)

lemma resume_waitForNextJob_loops:
  "resume k waitForNextJob (q\<lparr>loops := (loops q)[k := ph]\<rparr>) = resume k waitForNextJob q"
  by (simp add: resume_def waitForNextJob_def)

lemma drop_decodes:
  "i < length docs \<Longrightarrow>
   filter (decodes c) (drop i docs) =
     (if decodes c (docs ! i) then docs ! i # filter (decodes c) (drop (Suc i) docs)
      else filter (decodes c) (drop (Suc i) docs))"
  by (simp add: Cons_nth_drop_Suc [symmetric])

lemma claim_attempts_failures:
  "k < length (loops q) \<Longrightarrow>
   claim_attempts c k (resume k (takeFirstValidAvailableJob c docs i) q) es =
     take (length es) (filter (decodes c) (drop i docs))"
proof (induction "length docs - i" arbitrary: i es q)
  case 0
  then have "length docs \<le> i" by simp
  then have "resume k (takeFirstValidAvailableJob c docs i) q = resume k waitForNextJob q"
    by (rule resume_exhausted)
  moreover have "\<forall>ds j jd. loops (resume k waitForNextJob q) ! k \<noteq> Claiming ds j jd"
    using 0(2) by (simp add: resume_def waitForNextJob_def)
  ultimately show ?case using \<open>length docs \<le> i\<close>
    by (cases es) (simp_all split: phase.splits)
next
  case (Suc n)
  then have i: "i < length docs" by simp
  show ?case
  proof (cases "decode c (doc_data (docs ! i))")
    case None
    from Suc(2) have "n = length docs - (i + 1)" by simp
    from Suc(1)[OF this Suc(3)] None i show ?thesis
      by (simp add: resume_skip drop_decodes decodes_def)
  next
    case (Some jd)
    show ?thesis
    proof (cases es)
      case Nil
      then show ?thesis by simp
    next
      case (Cons e es')
      let ?q = "q\<lparr>loops := (loops q)[k := Claiming docs i jd]\<rparr>"
      have k: "k < length (loops ?q)" using Suc(3) by simp
      have l: "loops ?q ! k = Claiming docs i jd" using Suc(3) by simp
      from Suc(2) have n: "n = length docs - (i + 1)" by simp
      have "claim_attempts c k ?q (e # es') =
          docs ! i # claim_attempts c k (resume k (takeFirstValidAvailableJob c docs (i + 1)) ?q) es'"
        using k l by (simp add: step_failure[OF k l] del: step.simps)
      also have "\<dots> = docs ! i # take (length es') (filter (decodes c) (drop (i + 1) docs))"
        using Suc(1)[OF n k] by simp
      finally show ?thesis using Some i Cons
        by (simp add: resume_Claiming drop_decodes decodes_def)
    qed
  qed
qed

lemma failures_return_to_waiting:
  "k < length (loops q) \<Longrightarrow> length es = length (filter (decodes c) (drop i docs)) \<Longrightarrow>
   foldl (step c) (resume k (takeFirstValidAvailableJob c docs i) q) (failures k es) =
     resume k waitForNextJob q"
proof (induction "length docs - i" arbitrary: i es q)
  case 0
  then have "length docs \<le> i" by simp
  then show ?case using 0 by (simp add: resume_exhausted failures_def)
next
  case (Suc n)
  then have i: "i < length docs" by simp
  from Suc(2) have n: "n = length docs - (i + 1)" by simp
  show ?case
  proof (cases "decode c (doc_data (docs ! i))")
    case None
    with Suc(4) i have "length es = length (filter (decodes c) (drop (i + 1) docs))"
      by (simp add: drop_decodes decodes_def)
    from Suc(1)[OF n Suc(3) this] None i show ?thesis
      by (simp add: resume_skip)
  next
    case (Some jd)
    with Suc(4) i obtain e es' where es: "es = e # es'"
      and len: "length es' = length (filter (decodes c) (drop (i + 1) docs))"
      by (cases es) (simp_all add: drop_decodes decodes_def)
    let ?q = "q\<lparr>loops := (loops q)[k := Claiming docs i jd]\<rparr>"
    have k: "k < length (loops ?q)" using Suc(3) by simp
    have l: "loops ?q ! k = Claiming docs i jd" using Suc(3) by simp
    have "foldl (step c) ?q (failures k es) =
        foldl (step c) (resume k (takeFirstValidAvailableJob c docs (i + 1)) ?q) (failures k es')"
      by (simp add: es failures_def step_failure[OF k l] del: step.simps)
    also have "\<dots> = resume k waitForNextJob ?q"
      using Suc(1)[OF n k len] .
    also have "\<dots> = resume k waitForNextJob q"
      by (rule resume_waitForNextJob_loops)
    finally show ?thesis using Some i by (simp add: resume_Claiming)
  qed
qed

subsection \<open>The claim loop\<close>

lemma on_snapshot_nonempty:
  assumes "n \<in> set (listeners p)" and "waiting_loop n (loops p) = Some k"
    and "query_queued c (firestore p) \<noteq> []"
  shows "step c p (SnapshotFires n draws) =
    resume k (takeFirstValidAvailableJob c (shuffle draws (query_queued c (firestore p))) 0)
      (call_unsubscribe p)"
proof -
  have "shuffle draws (query_queued c (firestore p)) \<noteq> []"
    using assms(3) mset_shuffle[of draws "query_queued c (firestore p)"] by force
  moreover have "loops (call_unsubscribe p) = loops p"
    by (simp add: call_unsubscribe_def split: option.splits)
  moreover have "after_snapshot c draws (query_queued c (firestore p)) =
      takeFirstValidAvailableJob c (shuffle draws (query_queued c (firestore p))) 0"
    using assms(3) by (intro ext) (simp add: after_snapshot_def)
  ultimately show ?thesis using assms
    by (simp add: on_snapshot_def Let_def settle_promise_def)
qed

lemma keyed_intro:
  "(i, d) \<in> set xs \<Longrightarrow> f d = Some k \<Longrightarrow>
   (k, i, d) \<in> set (List.map_filter (\<lambda>(i, d). map_option (\<lambda>k. (k, i, d)) (f d)) xs)"
  by (induction xs) (auto split: option.splits)

lemma query_queued_earliest:
  assumes "(i, d) \<in> set (queued st)" and "scheduledAt_field c d = Some k"
    and "\<lparr>doc_id = i, doc_data = d\<rparr> \<notin> set (query_queued c st)"
  shows "length (query_queued c st) = 5
    \<and> (\<forall>b \<in> set (query_queued c st). the (scheduledAt_field c (doc_data b)) \<le> k)"
proof -
  define ks where "ks = List.map_filter
     (\<lambda>(i, d). map_option (\<lambda>k. (k, i, d)) (scheduledAt_field c d)) (queued st)"
  define xs where "xs = sort_key fst ks"
  have q: "query_queued c st = map (\<lambda>(k, i, d). \<lparr>doc_id = i, doc_data = d\<rparr>) (take 5 xs)"
    by (simp add: query_queued_def xs_def ks_def)
  have "(k, i, d) \<in> set ks"
    unfolding ks_def using assms(1,2) by (rule keyed_intro)
  then have "(k, i, d) \<in> set xs" by (simp add: xs_def)
  moreover have "(k, i, d) \<notin> set (take 5 xs)"
    using assms(3) by (force simp: q)
  moreover have "set xs = set (take 5 xs) \<union> set (drop 5 xs)"
    using set_append[of "take 5 xs" "drop 5 xs"] by simp
  ultimately have dr: "(k, i, d) \<in> set (drop 5 xs)" by blast
  then have "drop 5 xs \<noteq> []" by auto
  then have len: "length (take 5 xs) = 5" by simp
  have "sorted (map fst xs)" by (simp add: xs_def)
  then have "sorted (map fst (take 5 xs) @ map fst (drop 5 xs))"
    by (simp flip: map_append)
  then have le: "\<forall>y \<in> set (take 5 xs). fst y \<le> k"
    using dr by (force simp: sorted_append)
  have mem: "scheduledAt_field c d' = Some k'" if "(k', i', d') \<in> set (take 5 xs)" for k' i' d'
  proof -
    from that have "(k', i', d') \<in> set ks"
      using set_take_subset[of 5 xs] by (auto simp: xs_def)
    then show ?thesis
      unfolding ks_def by (rule keyed_member[THEN conjunct1])
  qed
  have "the (scheduledAt_field c (doc_data b)) \<le> k" if "b \<in> set (query_queued c st)" for b
  proof -
    from that obtain k' i' d' where y: "(k', i', d') \<in> set (take 5 xs)"
      and b: "b = \<lparr>doc_id = i', doc_data = d'\<rparr>"
      by (auto simp: q)
    from mem[OF y] le y show ?thesis by (force simp: b)
  qed
  with len show ?thesis by (simp add: q)
qed

text \<open>
  C8, as the code has it. A chain that waits on listener \<open>n\<close> of a processor that is not
  closed: the batch of a snapshot is the head of the ascending order of \<open>scheduledAt\<close>
  (at most five documents of \<open>queued\<close>, sorted, and a queued document that is left out
  is no earlier than any of five that are in); an empty batch changes nothing (the
  chain keeps waiting on the same listener); the candidates are the shuffled batch, a
  permutation of it; while the claims fail, they are attempted on the candidates that
  decode, in the order of the shuffled batch, a document that does not decode being
  skipped with no claim, so that the sequence of attempts is a permutation of the batch
  when all of it decodes; and when the candidates are exhausted the chain waits on a
  new listener.
\<close>

theorem wait_shuffle_claim:
  assumes "n \<in> set (listeners p)" and "waiting_loop n (loops p) = Some k"
    and "state p \<noteq> Closed"
  shows "length (query_queued c (firestore p)) \<le> 5
    \<and> sorted (map (\<lambda>d. the (scheduledAt_field c (doc_data d))) (query_queued c (firestore p)))
    \<and> (\<forall>d \<in> set (query_queued c (firestore p)).
          (doc_id d, doc_data d) \<in> set (queued (firestore p)))
    \<and> (\<forall>i d t. (i, d) \<in> set (queued (firestore p)) \<and> scheduledAt_field c d = Some t
            \<and> \<lparr>doc_id = i, doc_data = d\<rparr> \<notin> set (query_queued c (firestore p)) \<longrightarrow>
          length (query_queued c (firestore p)) = 5
          \<and> (\<forall>b \<in> set (query_queued c (firestore p)).
                the (scheduledAt_field c (doc_data b)) \<le> t))
    \<and> (query_queued c (firestore p) = [] \<longrightarrow> step c p (SnapshotFires n draws) = p)
    \<and> mset (shuffle draws (query_queued c (firestore p))) = mset (query_queued c (firestore p))
    \<and> (query_queued c (firestore p) \<noteq> [] \<longrightarrow>
         (\<forall>es. claim_attempts c k (step c p (SnapshotFires n draws)) es =
            take (length es)
              (filter (decodes c) (shuffle draws (query_queued c (firestore p)))))
       \<and> (\<forall>es. (\<forall>d \<in> set (query_queued c (firestore p)). decodes c d)
              \<and> length es = length (query_queued c (firestore p)) \<longrightarrow>
            mset (claim_attempts c k (step c p (SnapshotFires n draws)) es) =
              mset (query_queued c (firestore p)))
       \<and> (\<forall>es. length es =
              length (filter (decodes c) (shuffle draws (query_queued c (firestore p)))) \<longrightarrow>
            loops (foldl (step c) (step c p (SnapshotFires n draws)) (failures k es)) ! k =
              Waiting (fresh p)
            \<and> fresh p \<in> set (listeners
                 (foldl (step c) (step c p (SnapshotFires n draws)) (failures k es)))))"
proof -
  let ?batch = "query_queued c (firestore p)"
  let ?q = "call_unsubscribe p"
  have k: "k < length (loops ?q)" and l: "loops ?q = loops p"
    using waiting_loop_Some[OF assms(2)] by (simp_all add: call_unsubscribe_def split: option.splits)
  have f: "fresh ?q = fresh p" and s: "state ?q \<noteq> Closed"
    using assms(3) by (simp_all add: call_unsubscribe_def split: option.splits)
  have e: "step c p (SnapshotFires n draws) = p" if "?batch = []"
    using that by (simp add: on_snapshot_def)
  have a: "claim_attempts c k (step c p (SnapshotFires n draws)) es =
            take (length es) (filter (decodes c) (shuffle draws ?batch))"
    if "?batch \<noteq> []" for es
    using claim_attempts_failures[OF k, of c "shuffle draws ?batch" 0 es]
    by (simp only: on_snapshot_nonempty[OF assms(1,2) that] drop_0)
  have m: "mset (claim_attempts c k (step c p (SnapshotFires n draws)) es) = mset ?batch"
    if "?batch \<noteq> []" "\<forall>d \<in> set ?batch. decodes c d" "length es = length ?batch" for es
  proof -
    have "set (shuffle draws ?batch) = set ?batch"
      using mset_shuffle[of draws ?batch] by (rule mset_eq_setD)
    with that(2) have "filter (decodes c) (shuffle draws ?batch) = shuffle draws ?batch"
      by simp
    moreover have "length (shuffle draws ?batch) = length ?batch"
      using mset_shuffle[of draws ?batch] by (rule mset_eq_length)
    ultimately show ?thesis
      using a[OF that(1), of es] that(3) by (simp add: mset_shuffle del: step.simps)
  qed
  have w: "loops (foldl (step c) (step c p (SnapshotFires n draws)) (failures k es)) ! k =
              Waiting (fresh p)
            \<and> fresh p \<in> set (listeners
                 (foldl (step c) (step c p (SnapshotFires n draws)) (failures k es)))"
    if "?batch \<noteq> []" "length es = length (filter (decodes c) (shuffle draws ?batch))" for es
  proof -
    have "foldl (step c) (step c p (SnapshotFires n draws)) (failures k es) =
        resume k waitForNextJob ?q"
      using failures_return_to_waiting[OF k, of es c 0 "shuffle draws ?batch"] that(2)
      by (simp only: on_snapshot_nonempty[OF assms(1,2) that(1)] drop_0)
    then show ?thesis using k s f
      by (simp add: resume_def waitForNextJob_def)
  qed
  have n: "(\<forall>es. claim_attempts c k (step c p (SnapshotFires n draws)) es =
            take (length es) (filter (decodes c) (shuffle draws ?batch)))
       \<and> (\<forall>es. (\<forall>d \<in> set ?batch. decodes c d) \<and> length es = length ?batch \<longrightarrow>
            mset (claim_attempts c k (step c p (SnapshotFires n draws)) es) = mset ?batch)
       \<and> (\<forall>es. length es = length (filter (decodes c) (shuffle draws ?batch)) \<longrightarrow>
            loops (foldl (step c) (step c p (SnapshotFires n draws)) (failures k es)) ! k =
              Waiting (fresh p)
            \<and> fresh p \<in> set (listeners
                 (foldl (step c) (step c p (SnapshotFires n draws)) (failures k es))))"
    if "?batch \<noteq> []"
    using a[OF that] m[OF that] w[OF that] by blast
  have b: "length ?batch \<le> 5
    \<and> sorted (map (\<lambda>d. the (scheduledAt_field c (doc_data d))) ?batch)
    \<and> (\<forall>d \<in> set ?batch. (doc_id d, doc_data d) \<in> set (queued (firestore p)))"
    using query_queued_batch[of c "firestore p"] by blast
  have h: "length ?batch = 5 \<and> (\<forall>b \<in> set ?batch. the (scheduledAt_field c (doc_data b)) \<le> t)"
    if "(i, d) \<in> set (queued (firestore p))" "scheduledAt_field c d = Some t"
      "\<lparr>doc_id = i, doc_data = d\<rparr> \<notin> set ?batch" for i d t
    using that by (rule query_queued_earliest)
  then have hq: "\<forall>i d t. (i, d) \<in> set (queued (firestore p)) \<and> scheduledAt_field c d = Some t
            \<and> \<lparr>doc_id = i, doc_data = d\<rparr> \<notin> set ?batch \<longrightarrow>
          length ?batch = 5
          \<and> (\<forall>b \<in> set ?batch. the (scheduledAt_field c (doc_data b)) \<le> t)"
    by blast
  have en: "(?batch = [] \<longrightarrow> step c p (SnapshotFires n draws) = p)
    \<and> mset (shuffle draws ?batch) = mset ?batch"
    using e mset_shuffle[of draws ?batch] by blast
  from n have nn: "?batch \<noteq> [] \<longrightarrow>
         (\<forall>es. claim_attempts c k (step c p (SnapshotFires n draws)) es =
            take (length es) (filter (decodes c) (shuffle draws ?batch)))
       \<and> (\<forall>es. (\<forall>d \<in> set ?batch. decodes c d) \<and> length es = length ?batch \<longrightarrow>
            mset (claim_attempts c k (step c p (SnapshotFires n draws)) es) = mset ?batch)
       \<and> (\<forall>es. length es = length (filter (decodes c) (shuffle draws ?batch)) \<longrightarrow>
            loops (foldl (step c) (step c p (SnapshotFires n draws)) (failures k es)) ! k =
              Waiting (fresh p)
            \<and> fresh p \<in> set (listeners
                 (foldl (step c) (step c p (SnapshotFires n draws)) (failures k es))))"
    by (rule impI)
  from b hq en nn show ?thesis
    by (intro conjI) (elim conjE, assumption)+
qed

text \<open>
  C9. A job whose claim commits when the clock reads \<open>clock_now p\<close>, whose callback
  answers with status \<open>s\<close> when the clock reads \<open>t1\<close>, and whose completion commits:
  the execution starts with the clock reading taken before the call, and the record in
  \<open>complete\<close> holds the status, the lag (start minus the scheduled instant) and the
  duration (the reading after the call minus the start).
\<close>

theorem completion_record_fields:
  assumes "k < length (loops p)" and "loops p ! k = Claiming docs i jd"
    and "fst (markJobAsRunning None (docs ! i) (firestore p)) = Inr ()"
    and "map_of (complete st) (jd_id jd) = None" and "map_of (running st) (jd_id jd) \<noteq> None"
  shows "loops (step c p (TransactionSettles k None)) ! k = Executing jd (clock_now p)
    \<and> map_of (complete (firestore (foldl (step c) p
          [TransactionSettles k None, ClockReads t1, HttpSettles k (Response s),
           StoreBecomes st, TransactionSettles k None]))) (jd_id jd) =
        Some \<lparr>jobDefinition = encode c jd, status = s,
              executionLagMs = clock_now p - jd_scheduledAt jd,
              durationMs = t1 - clock_now p\<rparr>"
proof -
  obtain st1 where m: "markJobAsRunning None (docs ! i) (firestore p) = (Inr (), st1)"
    using assms(3) by (cases "markJobAsRunning None (docs ! i) (firestore p)") simp
  define r where "r = completion_record c jd s (t1 - clock_now p) (clock_now p)"
  define q where "q = p\<lparr>firestore := st, clock_now := t1,
        loops := (loops p)[k := Completing jd s (t1 - clock_now p) (clock_now p)]\<rparr>"
  have p1: "transaction_settles c k None p =
      p\<lparr>firestore := st1, loops := (loops p)[k := Executing jd (clock_now p)]\<rparr>"
    using assms(1,2) m by (simp add: transaction_settles_def resume_def processJob_def)
  have p2: "foldl (step c) p [TransactionSettles k None, ClockReads t1, HttpSettles k (Response s),
           StoreBecomes st] = q"
    using assms(1) by (simp add: p1 http_settles_def q_def)
  have w: "runTransaction None (complete_writes jd r) st =
        Inr (st\<lparr>complete := AList.update (jd_id jd) r (complete st),
                running := AList.delete (jd_id jd) (running st)\<rparr>)"
    using assms(4,5) by (simp add: runTransaction_def complete_writes_def)
  have p3: "firestore (transaction_settles c k None q) =
      st\<lparr>complete := AList.update (jd_id jd) r (complete st),
         running := AList.delete (jd_id jd) (running st)\<rparr>"
    using assms(1) w
    by (simp add: q_def r_def transaction_settles_def markJobAsComplete_def resume_def
        takeNextJob_def waitForNextJob_def)
  have "foldl (step c) p [TransactionSettles k None, ClockReads t1, HttpSettles k (Response s),
           StoreBecomes st, TransactionSettles k None] =
        step c (foldl (step c) p [TransactionSettles k None, ClockReads t1,
           HttpSettles k (Response s), StoreBecomes st]) (TransactionSettles k None)"
    by simp
  then have "firestore (foldl (step c) p [TransactionSettles k None, ClockReads t1,
           HttpSettles k (Response s), StoreBecomes st, TransactionSettles k None]) =
      st\<lparr>complete := AList.update (jd_id jd) r (complete st),
         running := AList.delete (jd_id jd) (running st)\<rparr>"
    by (simp only: p2) (simp add: p3)
  moreover have "loops (step c p (TransactionSettles k None)) ! k = Executing jd (clock_now p)"
    using assms(1) by (simp add: p1)
  ultimately show ?thesis
    by (simp add: update_conv r_def completion_record_def del: foldl.simps step.simps)
qed

lemmas example_defs =
  run_def takeNextJob_def waitForNextJob_def new_processor_def on_snapshot_def query_queued_def
  two_jobs_def taken_A_def empty_store_def plain_codec_def job_def job_doc_def call_unsubscribe_def
  settle_promise_def after_snapshot_def shuffle_def shuffle_step_def draw_def upt_rec resume_def
  takeFirstValidAvailableJob.simps transaction_settles_def markJobAsRunning_def runTransaction_def
  claim_writes_def http_settles_def markJobAsComplete_def complete_writes_def
  completion_record_def processJob_def failures_def not_found_def already_exists_def
  already_taken_def decodes_def

lemma run_two_jobs:
  "run (new_processor two_jobs 7) =
     \<lparr>state = Running, unsubscribe = Some 0, reject = Some 0, clock_now = 7,
      firestore = two_jobs, listeners = [0], fresh = 1, loops = [Waiting 0], console = []\<rparr>"
  by (simp add: run_def takeNextJob_def waitForNextJob_def new_processor_def)

lemma started_eq:
  "started =
     \<lparr>state = Running, unsubscribe = Some 0, reject = Some 0, clock_now = 7,
      firestore = two_jobs, listeners = [], fresh = 1,
      loops = [Claiming [job_doc ''A'' 0, job_doc ''B'' 1] 0 (job ''A'' 0)], console = []\<rparr>"
  by (simp add: started_def example_defs)

lemma markJobAsRunning_failure:
  "fst (markJobAsRunning fault d st) = Inl e \<Longrightarrow> snd (markJobAsRunning fault d st) = st"
  by (auto simp: markJobAsRunning_def split: sum.splits)

text \<open>
  C2, as the code has it. Whatever the claim on \<open>docs[index]\<close> fails with, the
  expected error or any other, \<open>orElseW\<close> drops the error and the chain goes on with
  \<open>takeFirstValidAvailableJob(docs, index + 1)\<close>: the next candidate that decodes is
  claimed.
\<close>

theorem claim_failure_advances:
  assumes "k < length (loops p)" and "loops p ! k = Claiming docs i jd"
    and "fst (markJobAsRunning fault (docs ! i) (firestore p)) = Inl e"
  shows "step c p (TransactionSettles k fault) =
           resume k (takeFirstValidAvailableJob c docs (i + 1)) p
         \<and> loops (step c p (TransactionSettles k fault)) ! k =
             fst (takeFirstValidAvailableJob c docs (i + 1) p)
         \<and> (\<forall>jd'. i + 1 < length docs \<and> decode c (doc_data (docs ! (i + 1))) = Some jd' \<longrightarrow>
               loops (step c p (TransactionSettles k fault)) ! k = Claiming docs (i + 1) jd')"
proof -
  obtain r st' where m: "markJobAsRunning fault (docs ! i) (firestore p) = (r, st')"
    by (cases "markJobAsRunning fault (docs ! i) (firestore p)")
  with assms(3) markJobAsRunning_failure[OF assms(3)] have r: "r = Inl e" "st' = firestore p"
    by simp_all
  have s: "step c p (TransactionSettles k fault) =
           resume k (takeFirstValidAvailableJob c docs (i + 1)) p"
    using assms(1,2) m r by (simp add: transaction_settles_def)
  have l: "loops (step c p (TransactionSettles k fault)) ! k =
             fst (takeFirstValidAvailableJob c docs (i + 1) p)"
    using assms(1) by (simp only: s) (simp add: loops_resume)
  show ?thesis using s l by (simp add: takeFirstValidAvailableJob.simps del: step.simps)
qed

theorem claim_failure_advances_witness:
  "fst (markJobAsRunning None (job_doc ''A'' 0) taken_A) = Inl already_taken
   \<and> loops (step plain_codec (started\<lparr>firestore := taken_A\<rparr>) (TransactionSettles 0 None)) ! 0 =
       Claiming [job_doc ''A'' 0, job_doc ''B'' 1] 1 (job ''B'' 1)"
proof -
  let ?p = "started\<lparr>firestore := taken_A\<rparr>"
  let ?docs = "[job_doc ''A'' 0, job_doc ''B'' 1]"
  have k: "0 < length (loops ?p)" and l: "loops ?p ! 0 = Claiming ?docs 0 (job ''A'' 0)"
    by (simp_all add: started_eq)
  have f: "fst (markJobAsRunning None (?docs ! 0) (firestore ?p)) = Inl already_taken"
    by (simp add: example_defs)
  have d: "0 + 1 < length ?docs \<and> decode plain_codec (doc_data (?docs ! (0 + 1))) = Some (job ''B'' 1)"
    by (simp add: plain_codec_def job_doc_def)
  from claim_failure_advances[OF k l f, of plain_codec] d
  have "loops (step plain_codec ?p (TransactionSettles 0 None)) ! 0 =
      Claiming ?docs (0 + 1) (job ''B'' 1)"
    by blast
  with f show ?thesis
    by (simp del: step.simps)
qed

text \<open>
  C2 as stated fails: an error without a \<open>code\<close> leaves \<open>markJobAsRunning\<close> unchanged,
  and the chain does not end with it but claims the next candidate.
\<close>

theorem unexpected_claim_error_is_absorbed:
  "fst (markJobAsRunning (Some (JsError ''connection lost'' None)) (job_doc ''A'' 0) two_jobs) =
     Inl (JsError ''connection lost'' None)
   \<and> JsError ''connection lost'' None \<noteq> already_taken
   \<and> loops (foldl (step plain_codec) (new_processor two_jobs 7)
        [CallRun, SnapshotFires 0 [],
         TransactionSettles 0 (Some (JsError ''connection lost'' None))]) =
       [Claiming [job_doc ''A'' 0, job_doc ''B'' 1] 1 (job ''B'' 1)]"
  by (simp add: example_defs)

text \<open>
  C4. The callback of job \<open>A\<close> has answered 200 and the transaction of
  \<open>markJobAsComplete\<close> fails: the failure is logged, and the only chain of the
  processor has ended with the \<open>Left\<close> that holds \<open>TE.of(undefined)\<close>; no listener is
  open, so no further job is taken.
\<close>

theorem completion_failure_ends_the_loop:
  "loops (foldl (step plain_codec) (new_processor two_jobs 7)
      [CallRun, SnapshotFires 0 [], TransactionSettles 0 None, ClockReads 42,
       HttpSettles 0 (Response 200),
       TransactionSettles 0 (Some (JsError ''UNAVAILABLE'' (Some (Status 14))))]) =
     [Settled TaskEither_of_undefined]
   \<and> console (foldl (step plain_codec) (new_processor two_jobs 7)
      [CallRun, SnapshotFires 0 [], TransactionSettles 0 None, ClockReads 42,
       HttpSettles 0 (Response 200),
       TransactionSettles 0 (Some (JsError ''UNAVAILABLE'' (Some (Status 14))))]) =
     [''Error: Error: UNAVAILABLE'']
   \<and> listeners (foldl (step plain_codec) (new_processor two_jobs 7)
      [CallRun, SnapshotFires 0 [], TransactionSettles 0 None, ClockReads 42,
       HttpSettles 0 (Response 200),
       TransactionSettles 0 (Some (JsError ''UNAVAILABLE'' (Some (Status 14))))]) = []"
  by (simp add: example_defs)

text \<open>The same for every chain whose completion fails.\<close>

lemma completion_failure_settles:
  assumes "k < length (loops p)" and "loops p ! k = Completing jd s dur t0"
    and "runTransaction fault (complete_writes jd (completion_record c jd s dur t0)) (firestore p)
           = Inl e"
  shows "step c p (TransactionSettles k fault) =
     p\<lparr>console := console p @ [''Error: '' @ to_string e],
       loops := (loops p)[k := Settled TaskEither_of_undefined]\<rparr>"
  using assms by (simp add: transaction_settles_def markJobAsComplete_def resume_def)

theorem completion_record_fields_witness:
  "map_of (complete (firestore (foldl (step plain_codec) started
      [TransactionSettles 0 None, ClockReads 42, HttpSettles 0 (Response 200),
       StoreBecomes taken_A, TransactionSettles 0 None]))) ''A'' =
     Some \<lparr>jobDefinition = job ''A'' 0, status = 200, executionLagMs = 7, durationMs = 35\<rparr>"
proof -
  let ?docs = "[job_doc ''A'' 0, job_doc ''B'' 1]"
  have k: "0 < length (loops started)" and l: "loops started ! 0 = Claiming ?docs 0 (job ''A'' 0)"
    by (simp_all add: started_eq)
  have f: "fst (markJobAsRunning None (?docs ! 0) (firestore started)) = Inr ()"
    by (simp add: started_eq example_defs)
  have c: "map_of (complete taken_A) (jd_id (job ''A'' 0)) = None"
    and r: "map_of (running taken_A) (jd_id (job ''A'' 0)) \<noteq> None"
    by (simp_all add: taken_A_def job_def)
  from completion_record_fields[OF k l f c r, of plain_codec 42 200] show ?thesis
    by (simp add: started_eq plain_codec_def job_def del: foldl_Cons step.simps)
qed

lemma six_jobs_batch:
  "query_queued plain_codec six_jobs =
     [job_doc ''A'' 1, job_doc ''B'' 2, job_doc ''C'' 3, job_doc ''D'' 4, job_doc ''E'' 5]"
  by (simp add: query_queued_def six_jobs_def plain_codec_def job_def job_doc_def)

theorem wait_shuffle_claim_witness:
  "query_queued plain_codec six_jobs =
     [job_doc ''A'' 1, job_doc ''B'' 2, job_doc ''C'' 3, job_doc ''D'' 4, job_doc ''E'' 5]
   \<and> length (query_queued plain_codec six_jobs) = 5
   \<and> the (scheduledAt_field plain_codec (doc_data (job_doc ''E'' 5))) \<le> 6
   \<and> step plain_codec (run (new_processor empty_store 7)) (SnapshotFires 0 [4, 0, 2]) =
       run (new_processor empty_store 7)
   \<and> claim_attempts plain_codec 0
       (step plain_codec (run (new_processor six_jobs 7)) (SnapshotFires 0 [4, 0, 2]))
       [not_found, not_found, not_found, not_found, not_found] =
       [job_doc ''E'' 5, job_doc ''B'' 2, job_doc ''A'' 1, job_doc ''D'' 4, job_doc ''C'' 3]
   \<and> mset (claim_attempts plain_codec 0
       (step plain_codec (run (new_processor six_jobs 7)) (SnapshotFires 0 [4, 0, 2]))
       [not_found, not_found, not_found, not_found, not_found]) =
       mset [job_doc ''A'' 1, job_doc ''B'' 2, job_doc ''C'' 3, job_doc ''D'' 4, job_doc ''E'' 5]
   \<and> loops (foldl (step plain_codec)
        (step plain_codec (run (new_processor six_jobs 7)) (SnapshotFires 0 [4, 0, 2]))
        (failures 0 [not_found, not_found, not_found, not_found, not_found])) ! 0 = Waiting 1"
proof -
  let ?p = "run (new_processor six_jobs 7)"
  let ?e = "run (new_processor empty_store 7)"
  let ?batch = "[job_doc ''A'' 1, job_doc ''B'' 2, job_doc ''C'' 3, job_doc ''D'' 4, job_doc ''E'' 5]"
  let ?cands = "[job_doc ''E'' 5, job_doc ''B'' 2, job_doc ''A'' 1, job_doc ''D'' 4, job_doc ''C'' 3]"
  let ?es = "[not_found, not_found, not_found, not_found, not_found]"
  have rp: "?p = \<lparr>state = Running, unsubscribe = Some 0, reject = Some 0, clock_now = 7,
      firestore = six_jobs, listeners = [0], fresh = 1, loops = [Waiting 0], console = []\<rparr>"
    by (simp add: run_def takeNextJob_def waitForNextJob_def new_processor_def)
  have re: "?e = \<lparr>state = Running, unsubscribe = Some 0, reject = Some 0, clock_now = 7,
      firestore = empty_store, listeners = [0], fresh = 1, loops = [Waiting 0], console = []\<rparr>"
    by (simp add: run_def takeNextJob_def waitForNextJob_def new_processor_def)
  have h: "0 \<in> set (listeners ?p)" "waiting_loop 0 (loops ?p) = Some 0" "state ?p \<noteq> Closed"
    by (simp_all add: rp)
  have he: "0 \<in> set (listeners ?e)" "waiting_loop 0 (loops ?e) = Some 0" "state ?e \<noteq> Closed"
    by (simp_all add: re)
  have q: "query_queued plain_codec (firestore ?p) = ?batch"
    by (simp add: rp six_jobs_batch)
  have qe: "query_queued plain_codec (firestore ?e) = []"
    unfolding re by (simp add: query_queued_def empty_store_def)
  have sh: "shuffle [4, 0, 2] ?batch = ?cands"
    by (simp add: shuffle_def shuffle_step_def draw_def upt_rec)
  have fr: "fresh ?p = 1" by (simp add: rp)
  have dc: "filter (decodes plain_codec) ?cands = ?cands"
    by (simp add: decodes_def plain_codec_def)
  have da: "\<forall>d \<in> set ?batch. decodes plain_codec d"
    by (simp add: decodes_def plain_codec_def)
  have f: "(''F'', job ''F'' 6) \<in> set (queued (firestore ?p))
      \<and> scheduledAt_field plain_codec (job ''F'' 6) = Some 6
      \<and> \<lparr>doc_id = ''F'', doc_data = job ''F'' 6\<rparr> \<notin> set ?batch"
    unfolding rp by (simp add: six_jobs_def plain_codec_def job_def job_doc_def)
  have ne: "?batch \<noteq> []" by simp
  note t = wait_shuffle_claim[OF h, of plain_codec "[4, 0, 2]", unfolded q sh dc fr]
  note te = wait_shuffle_claim[OF he, of plain_codec "[4, 0, 2]", unfolded qe]
  from t f have l: "length ?batch = 5
      \<and> (\<forall>b \<in> set ?batch. the (scheduledAt_field plain_codec (doc_data b)) \<le> 6)"
    by blast
  then have l5: "the (scheduledAt_field plain_codec (doc_data (job_doc ''E'' 5))) \<le> 6"
    by simp
  from t ne have a: "claim_attempts plain_codec 0 (step plain_codec ?p (SnapshotFires 0 [4, 0, 2])) ?es =
      take (length ?es) ?cands"
    by blast
  from t ne da have m: "mset (claim_attempts plain_codec 0
      (step plain_codec ?p (SnapshotFires 0 [4, 0, 2])) ?es) = mset ?batch"
    by (simp del: step.simps claim_attempts.simps)
  from t ne have w: "loops (foldl (step plain_codec)
      (step plain_codec ?p (SnapshotFires 0 [4, 0, 2])) (failures 0 ?es)) ! 0 = Waiting 1"
    by (simp del: step.simps foldl_Cons)
  from te have e: "step plain_codec ?e (SnapshotFires 0 [4, 0, 2]) = ?e"
    by (simp del: step.simps)
  from a have a': "claim_attempts plain_codec 0 (step plain_codec ?p (SnapshotFires 0 [4, 0, 2])) ?es =
      ?cands"
    by (simp del: step.simps claim_attempts.simps)
  from six_jobs_batch l5 e a' m w show ?thesis
    by (intro conjI) (simp_all del: step.simps claim_attempts.simps foldl_Cons)
qed

text \<open>
  C8 as stated fails on a batch with a document that does not decode: no claim is
  attempted on it, and the attempts are not a permutation of the batch.
\<close>

theorem undecodable_document_is_skipped:
  "query_queued picky_codec bad_and_B = [job_doc ''bad'' (- 1), job_doc ''B'' 1]
   \<and> shuffle [] [job_doc ''bad'' (- 1), job_doc ''B'' 1] = [job_doc ''bad'' (- 1), job_doc ''B'' 1]
   \<and> claim_attempts picky_codec 0
       (step picky_codec (run (new_processor bad_and_B 7)) (SnapshotFires 0 []))
       [not_found, not_found] = [job_doc ''B'' 1]
   \<and> mset [job_doc ''B'' 1] \<noteq> mset [job_doc ''bad'' (- 1), job_doc ''B'' 1]
   \<and> loops (foldl (step picky_codec) (new_processor bad_and_B 7)
        [CallRun, SnapshotFires 0 [], TransactionSettles 0 (Some not_found)]) = [Waiting 1]"
  by (simp add: example_defs bad_and_B_def picky_codec_def)

end
